theory Spec2Isabelle
  imports Main
begin

section \<open>Formula reference remapping of the Excel splitter\<close>

text \<open>
  The development embeds the class \<open>FormulaHelper\<close>, which is the same text in
  \<^verbatim>\<open>excel_splitter_V2.py\<close> and \<^verbatim>\<open>excel_splitter_v1.1.0.py\<close>.

  Conventions of the embedding:
  \<^item> a Python \<open>str\<close> is a \<open>string\<close>; one \<open>char\<close> stands for one code point, so the
    model covers the strings whose code points are below 256;
  \<^item> a Python \<open>int\<close> is an \<open>int\<close>;
  \<^item> the dictionary \<open>original_map\<close> is an association list, of which only the key set is
    read; the dictionary \<open>row_mapping\<close> is a map \<open>int \<rightharpoonup> int option\<close>, where
    \<open>m r = None\<close> says that the key \<open>r\<close> is absent, \<open>m r = Some None\<close> that \<open>r\<close> is stored
    with the value \<open>None\<close> of Python (the row was deleted) and \<open>m r = Some (Some n)\<close> that
    \<open>r\<close> is stored with the new row number \<open>n\<close>;
  \<^item> an exception is the left summand of a result of type \<open>py_error + 'a\<close>.
\<close>

subsection \<open>Row mapping after deletion\<close>

type_synonym 'v row_content_map = "(int \<times> 'v) list"
type_synonym row_mapping = "int \<rightharpoonup> int option"

text \<open>\<^verbatim>\<open>sorted(original_map.keys())\<close>: the keys of the dictionary in ascending order, each once.\<close>

definition sorted_keys :: "'v row_content_map \<Rightarrow> int list" where
  "sorted_keys original_map = sorted_list_of_set (set (map fst original_map))"

text \<open>
  One pass of the loop body over \<open>orig_row\<close>; the state is the pair of the dictionary
  \<open>mapping\<close> and the counter \<open>offset\<close>.
\<close>

definition mapping_step :: "int set \<Rightarrow> int \<Rightarrow> row_mapping \<times> int \<Rightarrow> row_mapping \<times> int" where
  "mapping_step deleted_rows orig_row st =
     (case st of (mapping, offset) \<Rightarrow>
        if orig_row \<in> deleted_rows
        then (mapping(orig_row \<mapsto> None), offset + 1)
        else (mapping(orig_row \<mapsto> Some (orig_row - offset)), offset))"

definition build_row_mapping_after_deletion ::
  "'v row_content_map \<Rightarrow> int set \<Rightarrow> row_mapping" where
  "build_row_mapping_after_deletion original_map deleted_rows =
     fst (fold (mapping_step deleted_rows) (sorted_keys original_map) (Map.empty, 0))"

text \<open>The dictionary with the keys \<open>1, \<dots>, n\<close>, as \<open>create_row_mapping\<close> numbers the rows.\<close>

definition rows_upto :: "int \<Rightarrow> unit row_content_map" where
  "rows_upto n = map (\<lambda>i. (i, ())) [1..n]"

text \<open>The number of deleted rows among \<open>keys\<close> that are smaller than \<open>r\<close>.\<close>

definition deleted_below :: "int set \<Rightarrow> int set \<Rightarrow> int \<Rightarrow> int" where
  "deleted_below keys deleted_rows r = int (card {d \<in> keys \<inter> deleted_rows. d < r})"


subsection \<open>Python strings and integers\<close>

datatype py_error = ValueError

text \<open>\<^verbatim>\<open>s.startswith(p)\<close>\<close>

definition startswith :: "string \<Rightarrow> string \<Rightarrow> bool" where
  "startswith s p = (take (length p) s = p)"

text \<open>
  \<^verbatim>\<open>s.replace(old, new)\<close>: the occurrences of \<open>old\<close> are found from left to right
  without overlap and each becomes \<open>new\<close>; with an empty \<open>old\<close>, \<open>new\<close> goes before every
  character and at the end.
\<close>

function str_replace :: "string \<Rightarrow> string \<Rightarrow> string \<Rightarrow> string" where
  "str_replace s old new =
     (if old = [] then new @ concat (map (\<lambda>c. c # new) s)
      else if s = [] then []
      else if startswith s old then new @ str_replace (drop (length old) s) old new
      else hd s # str_replace (tl s) old new)"
  by pat_completeness auto
termination
  by (relation "measure (\<lambda>(s, old, new). length s)") auto

declare str_replace.simps [simp del]

definition is_digit :: "char \<Rightarrow> bool" where
  "is_digit c = (let n = (of_char c :: nat) in 48 \<le> n \<and> n \<le> 57)"

definition is_upper :: "char \<Rightarrow> bool" where
  "is_upper c = (let n = (of_char c :: nat) in 65 \<le> n \<and> n \<le> 90)"

definition is_lower :: "char \<Rightarrow> bool" where
  "is_lower c = (let n = (of_char c :: nat) in 97 \<le> n \<and> n \<le> 122)"

text \<open>
  The interpreter refuses to convert between \<open>str\<close> and \<open>int\<close> when more than 4300 digits
  are involved (\<open>sys.get_int_max_str_digits()\<close>, which the program never changes): \<open>int\<close>
  and \<open>str\<close> raise \<open>ValueError\<close> then.
\<close>

definition max_str_digits :: nat where
  "max_str_digits = 4300"

text \<open>
  \<^verbatim>\<open>int(s)\<close> on a non-empty string of the digits \<open>0\<close> to \<open>9\<close>; every digit counts for
  the limit, also a leading zero. Python reads a few more spellings (a sign, blanks around
  the number, underscores between digits); the pattern \<^verbatim>\<open>[0-9]+\<close> produces none of them,
  and the model raises \<open>ValueError\<close> on everything that is not a digit string, as Python
  does on every other text.
\<close>

definition digit_value :: "char \<Rightarrow> int" where
  "digit_value c = int (of_char c) - 48"

definition digits_value :: "string \<Rightarrow> int" where
  "digits_value s = foldl (\<lambda>n c. 10 * n + digit_value c) 0 s"

definition py_int :: "string \<Rightarrow> py_error + int" where
  "py_int s =
     (if s = [] then Inl ValueError
      else if list_all is_digit s then
        (if max_str_digits < length s then Inl ValueError else Inr (digits_value s))
      else Inl ValueError)"

text \<open>
  \<^verbatim>\<open>str(n)\<close>, which is also what the f-string \<^verbatim>\<open>f'${n}'\<close> formats: the decimal digits of
  \<open>n\<close>, after a minus sign when \<open>n\<close> is negative; \<open>ValueError\<close> when \<open>n\<close> has more digits than
  the limit.
\<close>

definition digit_char :: "nat \<Rightarrow> char" where
  "digit_char d = char_of (48 + d)"

fun nat_digits :: "nat \<Rightarrow> string" where
  "nat_digits n =
     (if n < 10 then [digit_char n] else nat_digits (n div 10) @ [digit_char (n mod 10)])"

declare nat_digits.simps [simp del]

definition py_str :: "int \<Rightarrow> py_error + string" where
  "py_str n =
     (let digits = nat_digits (nat \<bar>n\<bar>)
      in if max_str_digits < length digits then Inl ValueError
         else Inr (if n < 0 then CHR ''-'' # digits else digits))"



subsection \<open>Regular expressions with backtracking\<close>

text \<open>
  A pattern maps the text at the current position to the ways in which it matches there,
  in the order in which the backtracking matcher of the module \<open>re\<close> tries them; a way is
  the matched text and the text after it. The first way of the whole pattern is the match.
\<close>

type_synonym regex = "string \<Rightarrow> (string \<times> string) list"

text \<open>One character of a class, such as \<^verbatim>\<open>\$\<close> or \<^verbatim>\<open>!\<close>.\<close>

definition re_char :: "(char \<Rightarrow> bool) \<Rightarrow> regex" where
  "re_char P s = (case s of [] \<Rightarrow> [] | c # r \<Rightarrow> if P c then [([c], r)] else [])"

text \<open>\<^verbatim>\<open>[class]+\<close>, greedy: the longest run first, then each shorter one down to one character.\<close>

fun re_plus :: "(char \<Rightarrow> bool) \<Rightarrow> regex" where
  "re_plus P [] = []"
| "re_plus P (c # r) =
     (if P c then map (\<lambda>(m, t). (c # m, t)) (re_plus P r) @ [([c], r)] else [])"

text \<open>\<^verbatim>\<open>p?\<close>, greedy: the ways of \<open>p\<close> first, then the empty match.\<close>

definition re_opt :: "regex \<Rightarrow> regex" where
  "re_opt p s = p s @ [([], s)]"

text \<open>\<open>p\<close> followed by \<open>q\<close>: every way of \<open>q\<close> is tried before \<open>p\<close> gives its next way.\<close>

definition re_seq :: "regex \<Rightarrow> regex \<Rightarrow> regex" where
  "re_seq p q s =
     concat (map (\<lambda>(m1, r1). map (\<lambda>(m2, r2). (m1 @ m2, r2)) (q r1)) (p s))"

text \<open>
  The classes \<^verbatim>\<open>\w\<close> and \<^verbatim>\<open>\s\<close> of a \<open>str\<close> pattern, on the code points below 256:
  a word character is alphanumeric or the underscore, a blank is a white space of Unicode.
\<close>

definition is_word :: "char \<Rightarrow> bool" where
  "is_word c =
     (let n = (of_char c :: nat)
      in is_digit c \<or> is_upper c \<or> is_lower c \<or> n = 95 \<or> n = 170 \<or> n = 178 \<or> n = 179 \<or>
         n = 181 \<or> n = 185 \<or> n = 186 \<or> (188 \<le> n \<and> n \<le> 190) \<or> (192 \<le> n \<and> n \<le> 214) \<or>
         (216 \<le> n \<and> n \<le> 246) \<or> 248 \<le> n)"

definition is_space :: "char \<Rightarrow> bool" where
  "is_space c =
     (let n = (of_char c :: nat)
      in (9 \<le> n \<and> n \<le> 13) \<or> (28 \<le> n \<and> n \<le> 32) \<or> n = 133 \<or> n = 160)"

definition is_word_or_space :: "char \<Rightarrow> bool" where
  "is_word_or_space c = (is_word c \<or> is_space c)"

definition is_quote :: "char \<Rightarrow> bool" where
  "is_quote c = (c = CHR 0x27 \<or> c = CHR 0x22)"

definition is_dollar :: "char \<Rightarrow> bool" where
  "is_dollar c = (c = CHR ''$'')"

definition is_bang :: "char \<Rightarrow> bool" where
  "is_bang c = (c = CHR ''!'')"

subsection \<open>Parsing the cell references of a formula\<close>

text \<open>The group \<^verbatim>\<open>(\$?[A-Z]+\$?[0-9]+)\<close>.\<close>

definition cell_pattern :: regex where
  "cell_pattern =
     re_seq (re_opt (re_char is_dollar))
       (re_seq (re_plus is_upper) (re_seq (re_opt (re_char is_dollar)) (re_plus is_digit)))"

text \<open>The prefix \<^verbatim>\<open>(?:(?:['"]?[\w\s]+['"]?)?!)?\<close>, which is matched and not captured.\<close>

definition sheet_pattern :: regex where
  "sheet_pattern =
     re_opt (re_seq
       (re_opt (re_seq (re_opt (re_char is_quote))
          (re_seq (re_plus is_word_or_space) (re_opt (re_char is_quote)))))
       (re_char is_bang))"

text \<open>
  The whole pattern at one position: the captured group of the first way to match, and
  the text after the match.
\<close>

definition match_reference :: "string \<Rightarrow> (string \<times> string) option" where
  "match_reference s =
     (case concat (map (\<lambda>(sheet, r). cell_pattern r) (sheet_pattern s)) of
        [] \<Rightarrow> None
      | way # _ \<Rightarrow> Some way)"

text \<open>
  \<^verbatim>\<open>re.findall(pattern, formula)\<close> with one group: the scan tries each position from the
  left, and goes on after a match at its end (one character further after an empty
  match, which this pattern does not have).
\<close>

function (sequential) findall :: "string \<Rightarrow> string list" where
  "findall [] = []"
| "findall (c # s) =
     (case match_reference (c # s) of
        None \<Rightarrow> findall s
      | Some (ref, rest) \<Rightarrow> ref # findall (if length rest \<le> length s then rest else s))"
  by pat_completeness auto
termination
  by (relation "measure length") auto

declare findall.simps [simp del]

definition parse_cell_references :: "string \<Rightarrow> string list" where
  "parse_cell_references formula = (if formula = [] then [] else findall formula)"

text \<open>
  \<^verbatim>\<open>re.match(r'(\$?[A-Z]+)(\$?[0-9]+)', ref)\<close> and \<open>match.groups()\<close>: the two groups of
  the first way to match at the start of \<open>ref\<close>, or \<open>None\<close>.
\<close>

definition column_pattern :: regex where
  "column_pattern = re_seq (re_opt (re_char is_dollar)) (re_plus is_upper)"

definition row_pattern :: regex where
  "row_pattern = re_seq (re_opt (re_char is_dollar)) (re_plus is_digit)"

definition match_groups :: "string \<Rightarrow> (string \<times> string) option" where
  "match_groups ref =
     (case concat (map (\<lambda>(col_ref, r). map (\<lambda>(row_ref, r'). (col_ref, row_ref)) (row_pattern r))
                    (column_pattern ref)) of
        [] \<Rightarrow> None
      | groups # _ \<Rightarrow> Some groups)"

subsection \<open>Adjusting the references of a formula\<close>

text \<open>\<^verbatim>\<open>cell_refs.sort(key=len, reverse=True)\<close>: stable, the longest reference first.\<close>

definition sort_by_length_desc :: "string list \<Rightarrow> string list" where
  "sort_by_length_desc cell_refs = sort_key (\<lambda>ref. - int (length ref)) cell_refs"

text \<open>
  The body of the loop over \<open>cell_refs\<close>, for one \<open>ref\<close>: the formula after it, or the
  exception of \<open>int\<close> or of the formatting of the new row number.
\<close>

definition adjust_reference :: "row_mapping \<Rightarrow> string \<Rightarrow> string \<Rightarrow> py_error + string" where
  "adjust_reference row_mapping ref new_formula =
     (case match_groups ref of
        None \<Rightarrow> Inr new_formula
      | Some (col_ref, row_ref) \<Rightarrow>
          let is_absolute = startswith row_ref ''$'' in
          (case (if is_absolute then py_int (drop 1 row_ref) else py_int row_ref) of
             Inl e \<Rightarrow> Inl e
           | Inr row_num \<Rightarrow>
               (case row_mapping row_num of
                  None \<Rightarrow> Inr new_formula
                | Some None \<Rightarrow> Inr new_formula
                | Some (Some new_row_num) \<Rightarrow>
                    (case py_str new_row_num of
                       Inl e \<Rightarrow> Inl e
                     | Inr digits \<Rightarrow>
                         let new_row_ref = (if is_absolute then ''$'' @ digits else digits);
                             new_ref = col_ref @ new_row_ref
                         in Inr (str_replace new_formula ref new_ref)))))"

fun adjust_loop :: "row_mapping \<Rightarrow> string list \<Rightarrow> string \<Rightarrow> py_error + string" where
  "adjust_loop row_mapping [] new_formula = Inr new_formula"
| "adjust_loop row_mapping (ref # cell_refs) new_formula =
     (case adjust_reference row_mapping ref new_formula of
        Inl e \<Rightarrow> Inl e
      | Inr new_formula' \<Rightarrow> adjust_loop row_mapping cell_refs new_formula')"

text \<open>
  The argument \<open>formula\<close> is a \<open>str\<close> here, so the test \<^verbatim>\<open>isinstance(formula, str)\<close> holds;
  the caller below makes the same test before the call.
\<close>

definition adjust_formula_references :: "string \<Rightarrow> row_mapping \<Rightarrow> py_error + string" where
  "adjust_formula_references formula row_mapping =
     (if formula = [] then Inr formula
      else if startswith formula ''='' then
        adjust_loop row_mapping (sort_by_length_desc (parse_cell_references formula)) formula
      else Inr formula)"

subsection \<open>Updating the formulas of a worksheet\<close>

text \<open>
  The value of a cell is a \<open>str\<close> or something else (\<open>None\<close>, a number, a date, a formula
  object), of which only the identity matters. A worksheet is the list of its rows, as
  \<open>iter_rows\<close> gives them.
\<close>

datatype py_value = StrValue string | NonStr nat

record cell =
  data_type :: string
  cell_value :: py_value

type_synonym worksheet = "cell list list"

text \<open>
  The cells are changed in place, so an exception leaves the assignments made before it:
  the functions return the cells after the call together with the count, or with the
  exception that ended the call.

  The body of the inner loop: the cell after it, and \<open>updated_count\<close> or the exception.
\<close>

definition update_cell :: "row_mapping \<Rightarrow> cell \<Rightarrow> nat \<Rightarrow> cell \<times> (py_error + nat)" where
  "update_cell row_mapping c updated_count =
     (if data_type c = ''f'' then
        (case cell_value c of
           NonStr v \<Rightarrow> (c, Inr updated_count)
         | StrValue original_formula \<Rightarrow>
             if original_formula = [] then (c, Inr updated_count)
             else
               (case adjust_formula_references original_formula row_mapping of
                  Inl e \<Rightarrow> (c, Inl e)
                | Inr new_formula \<Rightarrow>
                    if new_formula \<noteq> original_formula
                    then (c\<lparr>cell_value := StrValue new_formula\<rparr>, Inr (updated_count + 1))
                    else (c, Inr updated_count)))
      else (c, Inr updated_count))"

fun update_row :: "row_mapping \<Rightarrow> cell list \<Rightarrow> nat \<Rightarrow> cell list \<times> (py_error + nat)" where
  "update_row row_mapping [] updated_count = ([], Inr updated_count)"
| "update_row row_mapping (c # cs) updated_count =
     (case update_cell row_mapping c updated_count of
        (c', Inl e) \<Rightarrow> (c' # cs, Inl e)
      | (c', Inr n) \<Rightarrow>
          (case update_row row_mapping cs n of (cs', result) \<Rightarrow> (c' # cs', result)))"

fun update_rows :: "row_mapping \<Rightarrow> worksheet \<Rightarrow> nat \<Rightarrow> worksheet \<times> (py_error + nat)" where
  "update_rows row_mapping [] updated_count = ([], Inr updated_count)"
| "update_rows row_mapping (row # rows) updated_count =
     (case update_row row_mapping row updated_count of
        (row', Inl e) \<Rightarrow> (row' # rows, Inl e)
      | (row', Inr n) \<Rightarrow>
          (case update_rows row_mapping rows n of (rows', result) \<Rightarrow> (row' # rows', result)))"

definition update_formulas_in_sheet ::
  "worksheet \<Rightarrow> row_mapping \<Rightarrow> worksheet \<times> (py_error + nat)" where
  "update_formulas_in_sheet worksheet row_mapping = update_rows row_mapping worksheet 0"

text \<open>
  The effect on a worksheet in the words of the frame property, to be compared with
  \<open>update_formulas_in_sheet\<close>. \<open>cell_assigned\<close> relates a cell before and after the call: it
  is as before, or its data type is \<open>f\<close>, its value was a formula whose adjusted formula is
  another string, and the adjusted formula is its new value. \<open>cell_after\<close> is the cell after
  a call that returns; \<open>cell_raises\<close> says that adjusting the formula of the cell raises;
  \<open>changed_cells\<close> counts the cells whose value is another one afterwards.
\<close>

definition cell_assigned :: "row_mapping \<Rightarrow> cell \<Rightarrow> cell \<Rightarrow> bool" where
  "cell_assigned row_mapping c c' =
     (c' = c \<or>
      (data_type c = ''f'' \<and>
       (\<exists>f f'. cell_value c = StrValue f \<and> adjust_formula_references f row_mapping = Inr f' \<and>
                f' \<noteq> f \<and> c' = c\<lparr>cell_value := StrValue f'\<rparr>)))"

definition formula_differs :: "row_mapping \<Rightarrow> cell \<Rightarrow> bool" where
  "formula_differs row_mapping c =
     (data_type c = ''f'' \<and>
      (case cell_value c of
         NonStr v \<Rightarrow> False
       | StrValue f \<Rightarrow> adjust_formula_references f row_mapping \<noteq> Inr f))"

definition with_adjusted_formula :: "row_mapping \<Rightarrow> cell \<Rightarrow> cell" where
  "with_adjusted_formula row_mapping c =
     (case cell_value c of
        NonStr v \<Rightarrow> c
      | StrValue f \<Rightarrow>
          (case adjust_formula_references f row_mapping of
             Inl e \<Rightarrow> c
           | Inr f' \<Rightarrow> c\<lparr>cell_value := StrValue f'\<rparr>))"

definition cell_after :: "row_mapping \<Rightarrow> cell \<Rightarrow> cell" where
  "cell_after row_mapping c =
     (if formula_differs row_mapping c then with_adjusted_formula row_mapping c else c)"

definition cell_raises :: "row_mapping \<Rightarrow> cell \<Rightarrow> bool" where
  "cell_raises row_mapping c =
     (data_type c = ''f'' \<and>
      (case cell_value c of
         NonStr v \<Rightarrow> False
       | StrValue f \<Rightarrow> adjust_formula_references f row_mapping = Inl ValueError))"

definition changed_cells :: "cell list \<Rightarrow> cell list \<Rightarrow> nat" where
  "changed_cells cs cs' = length (filter (\<lambda>(c, c'). cell_value c' \<noteq> cell_value c) (zip cs cs'))"

text \<open>
  The digits of the row of a reference, and the references whose row is written with a
  leading zero, such as \<open>A01\<close>: \<open>str(int('01'))\<close> is \<open>1\<close>, another text.
\<close>

definition row_digits :: "string \<Rightarrow> string" where
  "row_digits ref = dropWhile (\<lambda>c. \<not> is_digit c) ref"

definition has_leading_zero :: "string \<Rightarrow> bool" where
  "has_leading_zero ref = (1 < length (row_digits ref) \<and> hd (row_digits ref) = CHR ''0'')"

text \<open>
  The texts that the group \<^verbatim>\<open>(\$?[A-Z]+\$?[0-9]+)\<close> captures: an optional \<open>$\<close>, letters, an
  optional \<open>$\<close>, digits.
\<close>

definition reference_shape :: "string \<Rightarrow> string \<Rightarrow> string \<Rightarrow> string \<Rightarrow> bool" where
  "reference_shape d1 l d2 n =
     ((d1 = [] \<or> d1 = ''$'') \<and> l \<noteq> [] \<and> list_all is_upper l \<and>
      (d2 = [] \<or> d2 = ''$'') \<and> n \<noteq> [] \<and> list_all is_digit n)"

section \<open>Properties\<close>

subsection \<open>The loop invariant of the row mapper\<close>

lemma fold_mapping_step_invariant:
  assumes "sorted xs" and "distinct xs"
  shows "snd (fold (mapping_step D) xs (Map.empty, 0)) = int (card (set xs \<inter> D)) \<and>
         (\<forall>r. fst (fold (mapping_step D) xs (Map.empty, 0)) r =
              (if r \<in> set xs
               then Some (if r \<in> D then None else Some (r - deleted_below (set xs) D r))
               else None))"
  using assms
proof (induction xs rule: rev_induct)
  case Nil
  then show ?case by simp
next
  case (snoc x xs)
  obtain m k where st: "fold (mapping_step D) xs (Map.empty, 0) = (m, k)"
    by (cases "fold (mapping_step D) xs (Map.empty, 0)")
  from snoc.prems have sx: "sorted xs" and dx: "distinct xs" and nx: "x \<notin> set xs"
    and below: "\<forall>y \<in> set xs. y < x"
    by (auto simp: sorted_append order_less_le)
  from snoc.IH [OF sx dx] st
  have k: "k = int (card (set xs \<inter> D))"
    and m: "\<And>r. m r = (if r \<in> set xs
               then Some (if r \<in> D then None else Some (r - deleted_below (set xs) D r))
               else None)"
    by simp_all
  have db_x: "deleted_below (insert x (set xs)) D x = k"
  proof -
    have "{d \<in> insert x (set xs) \<inter> D. d < x} = set xs \<inter> D"
      using below by auto
    then show ?thesis by (simp only: deleted_below_def k)
  qed
  have db_r: "deleted_below (insert x (set xs)) D r = deleted_below (set xs) D r"
    if "r \<in> set xs" for r
  proof -
    have "{d \<in> insert x (set xs) \<inter> D. d < r} = {d \<in> set xs \<inter> D. d < r}"
      using below that by auto
    then show ?thesis by (simp only: deleted_below_def)
  qed
  have cnt: "int (card (set (xs @ [x]) \<inter> D)) = (if x \<in> D then k + 1 else k)"
  proof (cases "x \<in> D")
    case True
    then have "set (xs @ [x]) \<inter> D = insert x (set xs \<inter> D)" by auto
    then show ?thesis using True nx k by simp
  next
    case False
    then have "set (xs @ [x]) \<inter> D = set xs \<inter> D" by auto
    then show ?thesis using False k by simp
  qed
  have fold_eq: "fold (mapping_step D) (xs @ [x]) (Map.empty, 0) =
       (if x \<in> D then (m(x \<mapsto> None), k + 1) else (m(x \<mapsto> Some (x - k)), k))"
    by (simp add: st mapping_step_def)
  show ?case
  proof (intro conjI allI)
    show "snd (fold (mapping_step D) (xs @ [x]) (Map.empty, 0)) =
          int (card (set (xs @ [x]) \<inter> D))"
      unfolding fold_eq cnt by simp
  next
    fix r
    show "fst (fold (mapping_step D) (xs @ [x]) (Map.empty, 0)) r =
          (if r \<in> set (xs @ [x])
           then Some (if r \<in> D then None
                      else Some (r - deleted_below (set (xs @ [x])) D r))
           else None)"
    proof (cases "r = x")
      case True
      then show ?thesis
        unfolding fold_eq by (simp add: db_x)
    next
      case False
      show ?thesis
      proof (cases "r \<in> set xs")
        case True
        then show ?thesis
          unfolding fold_eq using False m [of r] by (simp add: db_r)
      next
        case False
        then show ?thesis
          unfolding fold_eq using \<open>r \<noteq> x\<close> m [of r] by simp
      qed
    qed
  qed
qed

lemma sorted_keys_props:
  "sorted (sorted_keys om)" "distinct (sorted_keys om)" "set (sorted_keys om) = fst ` set om"
  by (simp_all add: sorted_keys_def)

lemma build_row_mapping_lookup:
  "build_row_mapping_after_deletion om D r =
     (if r \<in> fst ` set om
      then Some (if r \<in> D then None else Some (r - deleted_below (fst ` set om) D r))
      else None)"
  using fold_mapping_step_invariant [OF sorted_keys_props(1,2), where D = D and om1 = om]
  by (simp add: build_row_mapping_after_deletion_def sorted_keys_props(3))

lemma deleted_below_gap:
  assumes "finite K" "a \<notin> D" "a < b"
  shows "deleted_below K D b - deleted_below K D a \<le> b - a - 1"
proof -
  define A where "A = {d \<in> K \<inter> D. d < a}"
  define B where "B = {d \<in> K \<inter> D. d < b}"
  define M where "M = {d \<in> K \<inter> D. a \<le> d \<and> d < b}"
  have "A \<subseteq> K" "M \<subseteq> K" unfolding A_def M_def by auto
  then have fin: "finite A" "finite M" using assms(1) by (auto intro: finite_subset)
  have split: "B = A \<union> M" unfolding A_def B_def M_def using assms(3) by auto
  have disj: "A \<inter> M = {}" unfolding A_def M_def by auto
  have sum: "card B = card A + card M"
    unfolding split using card_Un_disjoint [OF fin disj] .
  have "M \<subseteq> {a + 1..b - 1}"
  proof
    fix d assume d: "d \<in> M"
    then have "d \<noteq> a" using assms(2) unfolding M_def by auto
    with d show "d \<in> {a + 1..b - 1}" unfolding M_def by simp
  qed
  then have "card M \<le> card {a + 1..b - 1}" by (intro card_mono) simp_all
  then have "int (card M) \<le> int (card {a + 1..b - 1})" by (simp only: of_nat_le_iff)
  also have "\<dots> = b - a - 1" using assms(3) by simp
  finally have "int (card M) \<le> b - a - 1" .
  then have "int (card B) - int (card A) \<le> b - a - 1" using sum by simp
  then show ?thesis unfolding deleted_below_def A_def B_def .
qed

lemma deleted_below_lower:
  assumes "r \<in> {1..N}"
  shows "deleted_below {1..N} D r \<le> r - 1"
proof -
  define A where "A = {d \<in> {1..N} \<inter> D. d < r}"
  have "A \<subseteq> {1..r - 1}" unfolding A_def by auto
  then have "card A \<le> card {1..r - 1}" by (intro card_mono) simp_all
  then have "int (card A) \<le> int (card {1..r - 1})" by (simp only: of_nat_le_iff)
  also have "\<dots> = r - 1" using assms by simp
  finally have "int (card A) \<le> r - 1" .
  then show ?thesis unfolding deleted_below_def A_def .
qed

lemma deleted_below_upper:
  assumes "r \<in> {1..N}" "r \<notin> D"
  shows "int (card (D \<inter> {1..N})) - deleted_below {1..N} D r \<le> N - r"
proof -
  define A where "A = {d \<in> {1..N} \<inter> D. d < r}"
  define M where "M = {d \<in> {1..N} \<inter> D. r < d}"
  have "A \<subseteq> {1..N}" "M \<subseteq> {1..N}" unfolding A_def M_def by auto
  then have fin: "finite A" "finite M" by (auto intro: finite_subset)
  have split: "D \<inter> {1..N} = A \<union> M"
  proof (intro set_eqI iffI)
    fix d assume d: "d \<in> D \<inter> {1..N}"
    then have "d \<noteq> r" using assms(2) by auto
    then have "d < r \<or> r < d" by linarith
    with d show "d \<in> A \<union> M" unfolding A_def M_def by auto
  qed (auto simp: A_def M_def)
  have disj: "A \<inter> M = {}" unfolding A_def M_def by auto
  have sum: "card (D \<inter> {1..N}) = card A + card M"
    unfolding split using card_Un_disjoint [OF fin disj] .
  have "M \<subseteq> {r + 1..N}" unfolding M_def by auto
  then have "card M \<le> card {r + 1..N}" by (intro card_mono) simp_all
  then have "int (card M) \<le> int (card {r + 1..N})" by (simp only: of_nat_le_iff)
  also have "\<dots> = N - r" using assms(1) by simp
  finally have "int (card M) \<le> N - r" .
  then have "int (card (D \<inter> {1..N})) - int (card A) \<le> N - r" using sum by simp
  then show ?thesis unfolding deleted_below_def A_def .
qed

subsection \<open>The row mapping\<close>

text \<open>
  Claim C1. For every dictionary \<open>original_map\<close> and every set \<open>deleted_rows\<close>, the
  mapping that \<open>build_row_mapping_after_deletion\<close> returns has exactly the keys of
  \<open>original_map\<close>; a key in \<open>deleted_rows\<close> is stored with \<open>None\<close>, and a key \<open>r\<close> that is
  retained is stored with \<open>r\<close> minus the number of deleted keys smaller than \<open>r\<close>.
\<close>

theorem build_row_mapping_total_with_offsets:
  "dom (build_row_mapping_after_deletion original_map deleted_rows) = fst ` set original_map \<and>
   (\<forall>r \<in> fst ` set original_map \<inter> deleted_rows.
      build_row_mapping_after_deletion original_map deleted_rows r = Some None) \<and>
   (\<forall>r \<in> fst ` set original_map - deleted_rows.
      build_row_mapping_after_deletion original_map deleted_rows r =
        Some (Some (r - int (card {d \<in> fst ` set original_map \<inter> deleted_rows. d < r}))))"
  by (auto simp: build_row_mapping_lookup deleted_below_def dom_def)

lemma set_rows_upto: "fst ` set (rows_upto n) = {1..n}"
  by (auto simp: rows_upto_def image_iff)

theorem build_row_mapping_total_with_offsets_witness:
  "build_row_mapping_after_deletion (rows_upto 5) {3} 3 = Some None \<and>
   build_row_mapping_after_deletion (rows_upto 5) {3} 4 = Some (Some 3) \<and>
   dom (build_row_mapping_after_deletion (rows_upto 5) {3}) = {1..5}"
proof -
  have "{d \<in> {1..5} \<inter> {3}. d < (4::int)} = {3}" by auto
  then show ?thesis
    using build_row_mapping_total_with_offsets [of "rows_upto 5" "{3}"] by (simp add: set_rows_upto)
qed

text \<open>
  Claim C4. Over the rows \<open>1, \<dots>, N\<close> and for any set of deleted rows, two retained rows
  \<open>a < b\<close> have new row numbers in the same strict order.
\<close>

theorem build_row_mapping_strictly_increasing:
  assumes "fst ` set original_map = {1..N}"
    and "a \<in> {1..N}" and "b \<in> {1..N}" and "a \<notin> deleted_rows" and "b \<notin> deleted_rows"
    and "a < b"
  shows "\<exists>x y. build_row_mapping_after_deletion original_map deleted_rows a = Some (Some x) \<and>
               build_row_mapping_after_deletion original_map deleted_rows b = Some (Some y) \<and>
               x < y"
proof -
  have "deleted_below {1..N} deleted_rows b - deleted_below {1..N} deleted_rows a \<le> b - a - 1"
    using assms(4,6) by (intro deleted_below_gap) simp_all
  then have "a - deleted_below {1..N} deleted_rows a < b - deleted_below {1..N} deleted_rows b"
    by simp
  then show ?thesis using assms(1-5) by (simp add: build_row_mapping_lookup)
qed

theorem build_row_mapping_strictly_increasing_witness:
  "\<exists>x y. build_row_mapping_after_deletion (rows_upto 5) {3} 2 = Some (Some x) \<and>
         build_row_mapping_after_deletion (rows_upto 5) {3} 4 = Some (Some y) \<and> x < y"
  using build_row_mapping_strictly_increasing [of "rows_upto 5" 5 2 4 "{3}"] by (simp add: set_rows_upto)

text \<open>
  Claim C9. Over the rows \<open>1, \<dots>, N\<close>, of which \<open>d\<close> are deleted, the new row numbers of
  the retained rows are exactly \<open>1, \<dots>, N - d\<close>.
\<close>

theorem build_row_mapping_compacts_to_range:
  assumes "fst ` set original_map = {1..N}"
  shows "{n. \<exists>r. build_row_mapping_after_deletion original_map deleted_rows r = Some (Some n)} =
         {1..N - int (card (deleted_rows \<inter> {1..N}))}"
proof -
  let ?D = deleted_rows
  let ?R = "{1..N} - ?D"
  let ?f = "\<lambda>r. r - deleted_below {1..N} ?D r"
  have img: "{n. \<exists>r. build_row_mapping_after_deletion original_map ?D r = Some (Some n)} = ?f ` ?R"
    using assms by (auto simp: build_row_mapping_lookup split: if_splits)
  have mono: "?f a < ?f b" if "a \<in> ?R" "b \<in> ?R" "a < b" for a b
  proof -
    have "deleted_below {1..N} ?D b - deleted_below {1..N} ?D a \<le> b - a - 1"
      using that by (intro deleted_below_gap) simp_all
    then show ?thesis by simp
  qed
  have inj: "inj_on ?f ?R"
  proof (rule inj_onI)
    fix a b assume ab: "a \<in> ?R" "b \<in> ?R" "?f a = ?f b"
    show "a = b"
    proof (rule ccontr)
      assume "a \<noteq> b"
      then consider "a < b" | "b < a" by linarith
      then show False using mono [of a b] mono [of b a] ab by cases simp_all
    qed
  qed
  have sub: "?f ` ?R \<subseteq> {1..N - int (card (?D \<inter> {1..N}))}"
  proof
    fix n assume "n \<in> ?f ` ?R"
    then obtain r where r: "r \<in> {1..N}" "r \<notin> ?D" "n = ?f r" by auto
    from deleted_below_lower [OF r(1), of ?D] deleted_below_upper [OF r(1,2)] r(3)
    show "n \<in> {1..N - int (card (?D \<inter> {1..N}))}" by simp
  qed
  have cardR: "card ?R = card {1..N} - card (?D \<inter> {1..N})"
  proof -
    have "?R = {1..N} - (?D \<inter> {1..N})" by auto
    then show ?thesis by (simp add: card_Diff_subset)
  qed
  have le: "card (?D \<inter> {1..N}) \<le> card {1..N}" by (intro card_mono) simp_all
  have "card (?f ` ?R) = card ?R" using inj by (rule card_image)
  also have "\<dots> = card {1..N - int (card (?D \<inter> {1..N}))}"
    using cardR le by simp
  finally have "?f ` ?R = {1..N - int (card (?D \<inter> {1..N}))}"
    using sub by (intro card_subset_eq) simp_all
  then show ?thesis using img by simp
qed

theorem build_row_mapping_compacts_to_range_witness:
  "{n. \<exists>r. build_row_mapping_after_deletion (rows_upto 5) {3, 9} r = Some (Some n)} = {1..4}"
proof -
  have "{3, 9} \<inter> {1..5::int} = {3}" by auto
  then show ?thesis using build_row_mapping_compacts_to_range [of "rows_upto 5" 5 "{3, 9}"] by (simp add: set_rows_upto)
qed


subsection \<open>Rewrites of given formulas\<close>

text \<open>
  Claim C3. The rows \<open>2, \<dots>, 9\<close> of the rows \<open>1, \<dots>, 100\<close> are deleted: row 1 keeps its
  number, row 10 becomes row 2, row 100 becomes row 92, and \<open>=A1+A10+A100\<close> is rewritten to
  \<open>=A1+A2+A92\<close>.
\<close>

theorem adjust_longest_reference_first:
  "build_row_mapping_after_deletion (rows_upto 100) {2, 3, 4, 5, 6, 7, 8, 9} 1 = Some (Some 1) \<and>
   build_row_mapping_after_deletion (rows_upto 100) {2, 3, 4, 5, 6, 7, 8, 9} 10 = Some (Some 2) \<and>
   build_row_mapping_after_deletion (rows_upto 100) {2, 3, 4, 5, 6, 7, 8, 9} 100 = Some (Some 92) \<and>
   adjust_formula_references ''=A1+A10+A100''
     (build_row_mapping_after_deletion (rows_upto 100) {2, 3, 4, 5, 6, 7, 8, 9}) =
     Inr ''=A1+A2+A92''"
  by code_simp

text \<open>
  Claim C2, on the code. The function takes one mapping and no sheet name, and the pattern
  does not capture the sheet prefix: a reference to another sheet is rewritten with the
  mapping of the sheet that holds the formula. With row 2 of the rows \<open>1, \<dots>, 10\<close> deleted,
  \<open>=Sheet2!A10\<close> becomes \<open>=Sheet2!A9\<close>.
\<close>

theorem adjust_rewrites_other_sheet:
  "parse_cell_references ''=Sheet2!A10'' = [''A10''] \<and>
   adjust_formula_references ''=Sheet2!A10''
     (build_row_mapping_after_deletion (rows_upto 10) {2}) = Inr ''=Sheet2!A9''"
  by code_simp

text \<open>
  Claim C5, on the code. Rows 2 and 35 of the rows \<open>1, \<dots>, 35\<close> are deleted. The
  reference \<open>A35\<close> is skipped, as its row is stored with \<open>None\<close>; then \<open>A3\<close> is replaced
  by \<open>A2\<close> wherever that text occurs, also inside \<open>A35\<close>.
\<close>

theorem adjust_changes_deleted_reference:
  "build_row_mapping_after_deletion (rows_upto 35) {2, 35} 35 = Some None \<and>
   build_row_mapping_after_deletion (rows_upto 35) {2, 35} 3 = Some (Some 2) \<and>
   sort_by_length_desc (parse_cell_references ''=A3+A35'') = [''A35'', ''A3''] \<and>
   adjust_formula_references ''=A3+A35''
     (build_row_mapping_after_deletion (rows_upto 35) {2, 35}) = Inr ''=A2+A25''"
  by code_simp

subsection \<open>What the patterns match\<close>

lemma re_plus_sound:
  "(m, t) \<in> set (re_plus P s) \<Longrightarrow> m \<noteq> [] \<and> list_all P m \<and> s = m @ t"
  by (induction s arbitrary: m t) (auto split: if_splits)

lemma re_opt_char_sound:
  "(m, t) \<in> set (re_opt (re_char P) s) \<Longrightarrow> (m = [] \<or> (\<exists>c. m = [c] \<and> P c)) \<and> s = m @ t"
  by (auto simp: re_opt_def re_char_def split: list.splits if_splits)

lemma re_seq_iff:
  "(m, t) \<in> set (re_seq p q s) \<longleftrightarrow>
     (\<exists>m1 r1 m2. (m1, r1) \<in> set (p s) \<and> (m2, t) \<in> set (q r1) \<and> m = m1 @ m2)"
  unfolding re_seq_def by force

lemma not_dollar_digit: "is_digit c \<Longrightarrow> c \<noteq> CHR ''$''"
  by (auto simp: is_digit_def)

lemma re_plus_none: "t = [] \<or> \<not> P (hd t) \<Longrightarrow> re_plus P t = []"
  by (cases t) auto

lemma re_plus_longest:
  "list_all P m \<Longrightarrow> m \<noteq> [] \<Longrightarrow> t = [] \<or> \<not> P (hd t) \<Longrightarrow>
   \<exists>rest. re_plus P (m @ t) = (m, t) # rest"
proof (induction m)
  case Nil
  then show ?case by simp
next
  case (Cons c m)
  show ?case
  proof (cases "m = []")
    case True
    then show ?thesis using Cons.prems re_plus_none [of t P] by simp
  next
    case False
    with Cons obtain rest where "re_plus P (m @ t) = (m, t) # rest" by auto
    then show ?thesis using Cons.prems by simp
  qed
qed

lemma opt_dollar_plus_first:
  assumes "d = [] \<or> d = ''$''" "list_all P m" "m \<noteq> []" "t = [] \<or> \<not> P (hd t)"
    and "\<not> P (CHR ''$'')"
  shows "\<exists>rest. re_seq (re_opt (re_char is_dollar)) (re_plus P) (d @ m @ t) = (d @ m, t) # rest"
proof -
  from re_plus_longest [OF assms(2,3,4)] obtain rest where
    plus: "re_plus P (m @ t) = (m, t) # rest" by blast
  from assms(1) show ?thesis
  proof
    assume d: "d = []"
    from assms(2,3) have "P (hd m)" by (cases m) auto
    with assms(5) have "hd m \<noteq> CHR ''$''" by auto
    then have "re_opt (re_char is_dollar) (m @ t) = [([], m @ t)]"
      using assms(3) by (cases m) (auto simp: re_opt_def re_char_def is_dollar_def)
    then show ?thesis using d plus by (simp add: re_seq_def)
  next
    assume d: "d = ''$''"
    have "re_opt (re_char is_dollar) (''$'' @ m @ t) = [(''$'', m @ t), ([], ''$'' @ m @ t)]"
      by (simp add: re_opt_def re_char_def is_dollar_def)
    then show ?thesis using d plus by (simp add: re_seq_def)
  qed
qed

lemma not_upper_digit: "is_digit c \<Longrightarrow> \<not> is_upper c"
  by (auto simp: is_digit_def is_upper_def Let_def)

lemma not_upper_dollar: "\<not> is_upper (CHR ''$'')"
  by (simp add: is_upper_def)

lemma not_digit_dollar: "\<not> is_digit (CHR ''$'')"
  by (simp add: is_digit_def)

lemma match_groups_shape:
  assumes "reference_shape d1 l d2 n"
  shows "match_groups (d1 @ l @ d2 @ n) = Some (d1 @ l, d2 @ n)"
proof -
  from assms have d1: "d1 = [] \<or> d1 = ''$''" and l: "l \<noteq> []" "list_all is_upper l"
    and d2: "d2 = [] \<or> d2 = ''$''" and n: "n \<noteq> []" "list_all is_digit n"
    by (simp_all add: reference_shape_def)
  from n have "is_digit (hd n)" by (cases n) auto
  then have "\<not> is_upper (hd (d2 @ n))"
    using d2 n(1) not_upper_digit not_upper_dollar by auto
  then have tail: "d2 @ n = [] \<or> \<not> is_upper (hd (d2 @ n))" by simp
  from opt_dollar_plus_first [OF d1 l(2) l(1) tail not_upper_dollar]
  obtain rest1 where col: "column_pattern (d1 @ l @ d2 @ n) = (d1 @ l, d2 @ n) # rest1"
    unfolding column_pattern_def by blast
  have "([]::string) = [] \<or> \<not> is_digit (hd [])" by simp
  from opt_dollar_plus_first [OF d2 n(2) n(1) this not_digit_dollar]
  obtain rest2 where row: "row_pattern (d2 @ n) = (d2 @ n, []) # rest2"
    unfolding row_pattern_def by auto
  show ?thesis by (simp add: match_groups_def col row)
qed

lemma row_digits_shape:
  assumes "reference_shape d1 l d2 n"
  shows "row_digits (d1 @ l @ d2 @ n) = n"
proof -
  from assms have d1: "d1 = [] \<or> d1 = ''$''" and l: "list_all is_upper l"
    and d2: "d2 = [] \<or> d2 = ''$''" and n: "n \<noteq> []" "list_all is_digit n"
    by (simp_all add: reference_shape_def)
  have "\<And>c. c \<in> set (d1 @ l @ d2) \<Longrightarrow> \<not> is_digit c"
    using d1 d2 l not_upper_digit not_digit_dollar by (auto simp: list_all_iff)
  then have "dropWhile (\<lambda>c. \<not> is_digit c) ((d1 @ l @ d2) @ n) = dropWhile (\<lambda>c. \<not> is_digit c) n"
    by (intro dropWhile_append2) simp
  moreover have "dropWhile (\<lambda>c. \<not> is_digit c) n = n" using n by (cases n) auto
  ultimately show ?thesis by (simp add: row_digits_def)
qed

lemma cell_pattern_sound:
  assumes "(ref, t) \<in> set (cell_pattern r)"
  shows "\<exists>d1 l d2 n. ref = d1 @ l @ d2 @ n \<and> reference_shape d1 l d2 n"
proof -
  from assms obtain d1 r1 l r2 d2 r3 n where
    d1: "(d1, r1) \<in> set (re_opt (re_char is_dollar) r)"
    and l: "(l, r2) \<in> set (re_plus is_upper r1)"
    and d2: "(d2, r3) \<in> set (re_opt (re_char is_dollar) r2)"
    and n: "(n, t) \<in> set (re_plus is_digit r3)"
    and ref: "ref = d1 @ l @ d2 @ n"
    unfolding cell_pattern_def re_seq_iff by blast
  from re_opt_char_sound [OF d1] have "d1 = [] \<or> d1 = ''$''" by (auto simp: is_dollar_def)
  moreover from re_opt_char_sound [OF d2] have "d2 = [] \<or> d2 = ''$''" by (auto simp: is_dollar_def)
  ultimately have "reference_shape d1 l d2 n"
    using re_plus_sound [OF l] re_plus_sound [OF n] by (simp add: reference_shape_def)
  with ref show ?thesis by blast
qed

lemma match_reference_sound:
  assumes "match_reference s = Some (ref, rest)"
  shows "\<exists>r. (ref, rest) \<in> set (cell_pattern r)"
proof -
  let ?ways = "concat (map (\<lambda>(sheet, r). cell_pattern r) (sheet_pattern s))"
  from assms have "(ref, rest) \<in> set ?ways"
    unfolding match_reference_def by (cases ?ways) simp_all
  then show ?thesis by auto
qed

lemma findall_sound:
  "ref \<in> set (findall s) \<Longrightarrow> \<exists>r t. (ref, t) \<in> set (cell_pattern r)"
proof (induction s rule: findall.induct)
  case 1
  then show ?case by (simp add: findall.simps)
next
  case (2 c s)
  show ?case
  proof (cases "match_reference (c # s)")
    case None
    with 2 show ?thesis by (simp add: findall.simps)
  next
    case (Some way)
    obtain ref' rest where way: "way = (ref', rest)" by (cases way)
    from "2.prems" Some way
    have "ref = ref' \<or> ref \<in> set (findall (if length rest \<le> length s then rest else s))"
      by (simp add: findall.simps)
    then show ?thesis
    proof
      assume "ref = ref'"
      with match_reference_sound [OF Some [unfolded way]] show ?thesis by blast
    next
      assume "ref \<in> set (findall (if length rest \<le> length s then rest else s))"
      with "2.IH"(2) [OF Some [unfolded way] refl] show ?thesis by simp
    qed
  qed
qed

lemma re_seq_first:
  assumes "p s = (m1, r1) # ways1" and "q r1 = (m2, r2) # ways2"
  shows "\<exists>ways. re_seq p q s = (m1 @ m2, r2) # ways"
  using assms by (simp add: re_seq_def)

lemma cell_pattern_first:
  assumes "reference_shape d1 l d2 n" and "t = [] \<or> \<not> is_digit (hd t)"
  shows "\<exists>ways. cell_pattern (d1 @ l @ d2 @ n @ t) = (d1 @ l @ d2 @ n, t) # ways"
proof -
  from assms(1) have d1: "d1 = [] \<or> d1 = ''$''" and l: "l \<noteq> []" "list_all is_upper l"
    and d2: "d2 = [] \<or> d2 = ''$''" and n: "n \<noteq> []" "list_all is_digit n"
    by (simp_all add: reference_shape_def)
  from opt_dollar_plus_first [OF d2 n(2) n(1) assms(2) not_digit_dollar]
  obtain w3 where row: "re_seq (re_opt (re_char is_dollar)) (re_plus is_digit) (d2 @ n @ t) =
      (d2 @ n, t) # w3" by blast
  from n have "is_digit (hd n)" by (cases n) auto
  then have "\<not> is_upper (hd (d2 @ n @ t))"
    using d2 n(1) not_upper_digit not_upper_dollar by auto
  then have "d2 @ n @ t = [] \<or> \<not> is_upper (hd (d2 @ n @ t))" by simp
  from re_plus_longest [OF l(2) l(1) this]
  obtain w2 where col: "re_plus is_upper (l @ d2 @ n @ t) = (l, d2 @ n @ t) # w2" by blast
  from re_seq_first [where p = "re_plus is_upper"
      and q = "re_seq (re_opt (re_char is_dollar)) (re_plus is_digit)", OF col row]
  obtain w23 where rest: "re_seq (re_plus is_upper)
      (re_seq (re_opt (re_char is_dollar)) (re_plus is_digit)) (l @ d2 @ n @ t) =
      (l @ d2 @ n, t) # w23" by auto
  from l have "is_upper (hd l)" by (cases l) auto
  then have "hd l \<noteq> CHR ''$''" using not_upper_dollar by auto
  then have "\<exists>w1. re_opt (re_char is_dollar) (d1 @ l @ d2 @ n @ t) = (d1, l @ d2 @ n @ t) # w1"
    using d1 l(1) by (cases l) (auto simp: re_opt_def re_char_def is_dollar_def)
  then obtain w1 where first: "re_opt (re_char is_dollar) (d1 @ l @ d2 @ n @ t) =
      (d1, l @ d2 @ n @ t) # w1" by blast
  from re_seq_first [where p = "re_opt (re_char is_dollar)"
      and q = "re_seq (re_plus is_upper) (re_seq (re_opt (re_char is_dollar)) (re_plus is_digit))",
      OF first rest]
  show ?thesis unfolding cell_pattern_def by simp
qed

lemma re_char_sound:
  "(m, t) \<in> set (re_char P s) \<Longrightarrow> s = m @ t \<and> (\<exists>c. m = [c] \<and> P c)"
  by (auto simp: re_char_def split: list.splits if_splits)

lemma before_bang:
  assumes "(m, t) \<in> set (re_seq p (re_char is_bang) s)"
    and "\<And>m1 r1. (m1, r1) \<in> set (p s) \<Longrightarrow> s = m1 @ r1"
  shows "CHR ''!'' \<in> set s"
proof -
  from assms(1) obtain m1 r1 m2 where a: "(m1, r1) \<in> set (p s)"
    and b: "(m2, t) \<in> set (re_char is_bang r1)"
    unfolding re_seq_iff by blast
  from re_char_sound [OF b] have "r1 = CHR ''!'' # t" by (auto simp: is_bang_def)
  with assms(2) [OF a] show ?thesis by simp
qed

lemma sheet_name_sound:
  assumes "(m, t) \<in> set (re_opt (re_seq (re_opt (re_char is_quote))
              (re_seq (re_plus is_word_or_space) (re_opt (re_char is_quote)))) s)"
  shows "s = m @ t"
proof -
  from assms consider "m = []" "t = s"
    | "(m, t) \<in> set (re_seq (re_opt (re_char is_quote))
         (re_seq (re_plus is_word_or_space) (re_opt (re_char is_quote))) s)"
    unfolding re_opt_def [of "re_seq (re_opt (re_char is_quote))
         (re_seq (re_plus is_word_or_space) (re_opt (re_char is_quote)))"]
    by auto
  then show ?thesis
  proof cases
    case 1
    then show ?thesis by simp
  next
    case 2
    then obtain q1 r1 w r2 q2 where q1: "(q1, r1) \<in> set (re_opt (re_char is_quote) s)"
      and w: "(w, r2) \<in> set (re_plus is_word_or_space r1)"
      and q2: "(q2, t) \<in> set (re_opt (re_char is_quote) r2)" and m: "m = q1 @ w @ q2"
      unfolding re_seq_iff by blast
    from re_opt_char_sound [OF q1] re_plus_sound [OF w] re_opt_char_sound [OF q2] m
    show ?thesis by simp
  qed
qed

lemma sheet_pattern_no_bang:
  assumes "CHR ''!'' \<notin> set s"
  shows "sheet_pattern s = [([], s)]"
proof -
  define name where "name = re_opt (re_seq (re_opt (re_char is_quote))
              (re_seq (re_plus is_word_or_space) (re_opt (re_char is_quote))))"
  have sound: "\<And>m t. (m, t) \<in> set (name s) \<Longrightarrow> s = m @ t"
    unfolding name_def by (rule sheet_name_sound)
  have "re_seq name (re_char is_bang) s = []"
  proof (cases "re_seq name (re_char is_bang) s")
    case Nil
    then show ?thesis .
  next
    case (Cons way ways)
    obtain m t where "way = (m, t)" by (cases way)
    with Cons have "(m, t) \<in> set (re_seq name (re_char is_bang) s)" by simp
    from before_bang [OF this sound] assms show ?thesis by simp
  qed
  then show ?thesis unfolding sheet_pattern_def name_def [symmetric]
    by (simp add: re_opt_def [of "re_seq name (re_char is_bang)"])
qed

lemma match_reference_no_bang:
  assumes "CHR ''!'' \<notin> set s"
  shows "match_reference s = (case cell_pattern s of [] \<Rightarrow> None | way # ways \<Rightarrow> Some way)"
  by (simp add: match_reference_def sheet_pattern_no_bang [OF assms])

lemma reference_shape_chars:
  assumes "reference_shape d1 l d2 n" and "c \<in> set (d1 @ l @ d2 @ n)"
  shows "c = CHR ''$'' \<or> is_upper c \<or> is_digit c"
  using assms by (auto simp: reference_shape_def list_all_iff)

lemma not_bang: "c = CHR ''$'' \<or> is_upper c \<or> is_digit c \<Longrightarrow> c \<noteq> CHR ''!''"
  by (auto simp: is_upper_def is_digit_def)

lemma findall_single_reference:
  assumes "reference_shape d1 l d2 n"
  shows "findall (''='' @ d1 @ l @ d2 @ n) = [d1 @ l @ d2 @ n]"
proof -
  let ?ref = "d1 @ l @ d2 @ n"
  from assms have l: "l \<noteq> []" by (simp add: reference_shape_def)
  have nb: "CHR ''!'' \<notin> set ?ref"
    using reference_shape_chars [OF assms] not_bang by blast
  then have nb': "CHR ''!'' \<notin> set (CHR ''='' # ?ref)" by simp
  have "cell_pattern (CHR ''='' # ?ref) = []"
    by (simp add: cell_pattern_def re_seq_def re_opt_def re_char_def is_dollar_def is_upper_def)
  then have none: "match_reference (CHR ''='' # ?ref) = None"
    using match_reference_no_bang [OF nb'] by simp
  from cell_pattern_first [OF assms, of "[]"]
  obtain ways where "cell_pattern ?ref = (?ref, []) # ways" by auto
  then have some: "match_reference ?ref = Some (?ref, [])"
    using match_reference_no_bang [OF nb] by simp
  obtain c r where ref: "?ref = c # r" using l by (cases ?ref) auto
  have "findall ?ref = [?ref]"
    using some unfolding ref by (simp add: findall.simps)
  then show ?thesis using none by (simp add: findall.simps)
qed

subsection \<open>Decimal numerals and replacement of a text\<close>

lemma str_replace_same_aux: "old \<noteq> [] \<Longrightarrow> new = old \<Longrightarrow> str_replace s old new = s"
proof (induction s old new rule: str_replace.induct)
  case (1 s old new)
  show ?case
  proof (cases "s = []")
    case True
    then show ?thesis using "1.prems" by (simp add: str_replace.simps)
  next
    case False
    show ?thesis
    proof (cases "startswith s old")
      case True
      then have "old @ drop (length old) s = s"
        by (metis append_take_drop_id startswith_def)
      moreover have "str_replace (drop (length old) s) old new = drop (length old) s"
        using "1.IH"(1) "1.prems" False True by simp
      ultimately show ?thesis using "1.prems" False True
        by (simp add: str_replace.simps [of s])
    next
      case nst: False
      have "str_replace (tl s) old new = tl s"
        using "1.IH"(2) "1.prems" False nst by simp
      then show ?thesis using "1.prems" False nst
        by (simp add: str_replace.simps [of s])
    qed
  qed
qed

lemma str_replace_same: "old \<noteq> [] \<Longrightarrow> str_replace s old old = s"
  by (rule str_replace_same_aux) simp_all

lemma digit_char_value:
  assumes "is_digit c"
  shows "digit_char (nat (digit_value c)) = c"
proof -
  from assms have "48 \<le> (of_char c :: nat)" by (simp add: is_digit_def Let_def)
  then have "48 + nat (digit_value c) = (of_char c :: nat)" by (simp add: digit_value_def)
  then have "digit_char (nat (digit_value c)) = char_of (of_char c :: nat)"
    by (simp only: digit_char_def)
  then show ?thesis by simp
qed

lemma digit_value_range: "is_digit c \<Longrightarrow> 0 \<le> digit_value c \<and> digit_value c < 10"
  by (auto simp: is_digit_def digit_value_def Let_def)

lemma digit_value_zero:
  assumes "digit_value c = 0"
  shows "c = CHR ''0''"
proof -
  from assms have "(of_char c :: nat) = of_char (CHR ''0'')" by (simp add: digit_value_def)
  then show ?thesis by (simp only: of_char_eq_iff)
qed

lemma digits_value_snoc: "digits_value (n @ [c]) = 10 * digits_value n + digit_value c"
  by (simp add: digits_value_def)

lemma digits_value_nonneg: "list_all is_digit n \<Longrightarrow> 0 \<le> digits_value n"
proof (induction n rule: rev_induct)
  case Nil
  then show ?case by (simp add: digits_value_def)
next
  case (snoc c n)
  then show ?case using digit_value_range [of c] by (simp add: digits_value_snoc)
qed

lemma digits_value_positive:
  "list_all is_digit n \<Longrightarrow> n \<noteq> [] \<Longrightarrow> hd n \<noteq> CHR ''0'' \<Longrightarrow> 0 < digits_value n"
proof (induction n rule: rev_induct)
  case Nil
  then show ?case by simp
next
  case (snoc c n)
  show ?case
  proof (cases "n = []")
    case True
    then have "digit_value c \<noteq> 0" using snoc.prems digit_value_zero [of c] by auto
    then show ?thesis using True snoc.prems digit_value_range [of c]
      by (simp add: digits_value_snoc digits_value_def)
  next
    case False
    then have "0 < digits_value n" using snoc by simp
    then show ?thesis using snoc.prems digit_value_range [of c]
      by (simp add: digits_value_snoc)
  qed
qed

lemma nat_digits_value:
  assumes "list_all is_digit n" "n \<noteq> []" "length n = 1 \<or> hd n \<noteq> CHR ''0''"
  shows "nat_digits (nat (digits_value n)) = n"
  using assms
proof (induction n rule: rev_induct)
  case Nil
  then show ?case by simp
next
  case (snoc c n)
  from snoc.prems have c: "is_digit c" and ds: "list_all is_digit n" by simp_all
  note r = digit_value_range [OF c]
  show ?case
  proof (cases "n = []")
    case True
    have "nat (digit_value c) < 10" using r by linarith
    then show ?thesis using True digit_char_value [OF c]
      by (simp add: digits_value_snoc digits_value_def nat_digits.simps)
  next
    case False
    then have h: "hd n \<noteq> CHR ''0''" using snoc.prems by simp
    have pos: "0 < digits_value n" using digits_value_positive [OF ds False h] .
    have IH: "nat_digits (nat (digits_value n)) = n" using snoc.IH ds False h by simp
    let ?v = "nat (10 * digits_value n + digit_value c)"
    have nn: "0 \<le> 10 * digits_value n + digit_value c" using pos r by linarith
    have ge: "\<not> ?v < 10" using pos r by linarith
    have "(10 * digits_value n + digit_value c) div 10 = digits_value n" using r by simp
    then have dv: "?v div 10 = nat (digits_value n)"
      using nat_div_distrib [OF nn, of 10] by simp
    have "(10 * digits_value n + digit_value c) mod 10 = digit_value c" using r by simp
    then have md: "?v mod 10 = nat (digit_value c)"
      using nat_mod_distrib [OF nn, of 10] by simp
    show ?thesis
      unfolding digits_value_snoc
      by (subst nat_digits.simps) (simp add: ge dv md IH digit_char_value [OF c])
  qed
qed

lemma nat_digits_length:
  "k < 10 ^ d \<Longrightarrow> 0 < d \<Longrightarrow> length (nat_digits k) \<le> d"
proof (induction d arbitrary: k)
  case 0
  then show ?case by simp
next
  case (Suc d)
  show ?case
  proof (cases "k < 10")
    case True
    then show ?thesis by (simp add: nat_digits.simps [of k])
  next
    case False
    then have d: "0 < d" using Suc.prems(1) by (cases d) auto
    have "k div 10 < 10 ^ d" using Suc.prems(1) by (simp add: less_mult_imp_div_less mult.commute)
    from Suc.IH [OF this d] False show ?thesis by (simp add: nat_digits.simps [of k])
  qed
qed

lemma nat_digits_nonempty: "nat_digits k \<noteq> []"
  by (simp add: nat_digits.simps [of k])

lemma py_str_small:
  assumes "\<bar>v\<bar> < 10 ^ max_str_digits"
  shows "\<exists>digits. py_str v = Inr digits"
proof -
  have "nat \<bar>v\<bar> < 10 ^ max_str_digits"
  proof -
    have "int (nat \<bar>v\<bar>) < int (10 ^ max_str_digits)" using assms by simp
    then show ?thesis by (simp only: of_nat_less_iff)
  qed
  then have "length (nat_digits (nat \<bar>v\<bar>)) \<le> max_str_digits"
    by (rule nat_digits_length) (simp add: max_str_digits_def)
  then show ?thesis by (simp add: py_str_def Let_def)
qed

lemma py_str_digits_value:
  assumes "list_all is_digit n" "n \<noteq> []" "length n = 1 \<or> hd n \<noteq> CHR ''0''"
    and "length n \<le> max_str_digits"
  shows "py_str (digits_value n) = Inr n"
  using digits_value_nonneg [OF assms(1)] nat_digits_value [OF assms(1-3)] assms(4)
  by (simp add: py_str_def Let_def)






subsection \<open>One pass of the loop over the references\<close>

lemma row_number_parses:
  assumes "d = [] \<or> d = ''$''" "n \<noteq> []" "list_all is_digit n"
  shows "(startswith (d @ n) ''$'' \<longleftrightarrow> d = ''$'') \<and>
         (if startswith (d @ n) ''$'' then py_int (drop 1 (d @ n)) else py_int (d @ n)) =
         (if max_str_digits < length n then Inl ValueError else Inr (digits_value n))"
proof -
  from assms(2,3) obtain c n' where n: "n = c # n'" and c: "is_digit c"
    by (cases n) auto
  have p: "py_int n = (if max_str_digits < length n then Inl ValueError else Inr (digits_value n))"
    using assms(2,3) by (simp add: py_int_def)
  from assms(1) show ?thesis
  proof
    assume "d = []"
    then show ?thesis using n not_dollar_digit [OF c] p by (simp add: startswith_def)
  next
    assume "d = ''$''"
    then show ?thesis using p by (simp add: startswith_def)
  qed
qed

lemma adjust_reference_shape:
  assumes "reference_shape d1 l d2 n"
  shows "adjust_reference row_mapping (d1 @ l @ d2 @ n) s =
     (if max_str_digits < length n then Inl ValueError
      else
        (case row_mapping (digits_value n) of
           None \<Rightarrow> Inr s
         | Some None \<Rightarrow> Inr s
         | Some (Some v) \<Rightarrow>
             (case py_str v of
                Inl e \<Rightarrow> Inl e
              | Inr digits \<Rightarrow> Inr (str_replace s (d1 @ l @ d2 @ n) (d1 @ l @ d2 @ digits)))))"
proof -
  from assms have d2: "d2 = [] \<or> d2 = ''$''" and n: "n \<noteq> []" "list_all is_digit n"
    by (simp_all add: reference_shape_def)
  note groups = match_groups_shape [OF assms]
  from row_number_parses [OF d2 n]
  have abs: "startswith (d2 @ n) ''$'' \<longleftrightarrow> d2 = ''$''"
    and val: "(if startswith (d2 @ n) ''$'' then py_int (drop 1 (d2 @ n)) else py_int (d2 @ n)) =
         (if max_str_digits < length n then Inl ValueError else Inr (digits_value n))"
    by blast+
  have nr: "(d1 @ l) @ (if startswith (d2 @ n) ''$'' then ''$'' @ digits else digits) =
            d1 @ l @ d2 @ digits" for digits
    using d2 abs by auto
  have "adjust_reference row_mapping (d1 @ l @ d2 @ n) s =
     (case (if max_str_digits < length n then Inl ValueError else Inr (digits_value n)) of
        Inl e \<Rightarrow> Inl e
      | Inr row_num \<Rightarrow>
          (case row_mapping row_num of
             None \<Rightarrow> Inr s
           | Some None \<Rightarrow> Inr s
           | Some (Some v) \<Rightarrow>
               (case py_str v of
                  Inl e \<Rightarrow> Inl e
                | Inr digits \<Rightarrow>
                    Inr (str_replace s (d1 @ l @ d2 @ n) (d1 @ l @ d2 @ digits)))))"
    by (simp only: adjust_reference_def groups option.case prod.case Let_def val nr)
  then show ?thesis by (cases "max_str_digits < length n") simp_all
qed

lemma extracted_references:
  assumes "ref \<in> set (sort_by_length_desc (parse_cell_references formula))"
  shows "ref \<in> set (parse_cell_references formula) \<and>
         (\<exists>d1 l d2 n. ref = d1 @ l @ d2 @ n \<and> reference_shape d1 l d2 n)"
proof -
  from assms have mem: "ref \<in> set (parse_cell_references formula)"
    by (simp add: sort_by_length_desc_def)
  then have "ref \<in> set (findall formula)"
    by (simp add: parse_cell_references_def split: if_splits)
  with findall_sound cell_pattern_sound mem show ?thesis by blast
qed

subsection \<open>When the rewriter returns\<close>

lemma adjust_loop_returns:
  assumes vals: "\<And>r v. row_mapping r = Some (Some v) \<Longrightarrow> \<bar>v\<bar> < 10 ^ max_str_digits"
    and refs: "\<And>ref. ref \<in> set cell_refs \<Longrightarrow>
           length (row_digits ref) \<le> max_str_digits \<and>
           (\<exists>d1 l d2 n. ref = d1 @ l @ d2 @ n \<and> reference_shape d1 l d2 n)"
  shows "\<exists>x. adjust_loop row_mapping cell_refs s = Inr x"
  using refs
proof (induction cell_refs arbitrary: s)
  case Nil
  then show ?case by simp
next
  case (Cons ref cell_refs)
  from Cons.prems [of ref] obtain d1 l d2 n where
    len: "length (row_digits ref) \<le> max_str_digits"
    and ref: "ref = d1 @ l @ d2 @ n" and shape: "reference_shape d1 l d2 n" by auto
  have n: "\<not> max_str_digits < length n"
    using len unfolding ref row_digits_shape [OF shape] by simp
  have "\<exists>x. adjust_reference row_mapping ref s = Inr x"
  proof (cases "row_mapping (digits_value n)")
    case None
    then show ?thesis unfolding ref adjust_reference_shape [OF shape] using n by simp
  next
    case (Some target)
    show ?thesis
    proof (cases target)
      case None
      then show ?thesis unfolding ref adjust_reference_shape [OF shape] using n Some by simp
    next
      case (Some v)
      with \<open>row_mapping (digits_value n) = Some target\<close>
      have m: "row_mapping (digits_value n) = Some (Some v)" by simp
      from py_str_small [OF vals [OF m]] obtain digits where "py_str v = Inr digits" by blast
      then show ?thesis unfolding ref adjust_reference_shape [OF shape] using n m by simp
    qed
  qed
  then obtain x where "adjust_reference row_mapping ref s = Inr x" by blast
  moreover have "\<exists>y. adjust_loop row_mapping cell_refs x = Inr y"
    using Cons.IH [of x] Cons.prems by simp
  ultimately show ?case by simp
qed

lemma long_row_raises:
  assumes "list_all is_digit n" and "max_str_digits < length n"
  shows "adjust_formula_references (''=A'' @ n) row_mapping = Inl ValueError"
proof -
  define f where "f = ''=A'' @ n"
  define ref where "ref = ''A'' @ n"
  from assms(2) have ne: "n \<noteq> []" by auto
  have shape: "reference_shape [] ''A'' [] n"
    using assms(1) ne by (simp add: reference_shape_def is_upper_def)
  have f: "f \<noteq> []" "startswith f ''=''" by (simp_all add: f_def startswith_def)
  have "findall f = [ref]"
    using findall_single_reference [OF shape] by (simp add: f_def ref_def)
  then have refs: "sort_by_length_desc (parse_cell_references f) = [ref]"
    using f(1) by (simp add: parse_cell_references_def sort_by_length_desc_def)
  have step: "adjust_reference row_mapping ref f = Inl ValueError"
    using adjust_reference_shape [OF shape, of row_mapping f] assms(2) by (simp add: ref_def)
  have "adjust_formula_references f row_mapping = Inl ValueError"
    by (simp add: adjust_formula_references_def refs step f)
  then show ?thesis by (simp only: f_def)
qed

lemma small_row_numbers:
  assumes "build_row_mapping_after_deletion (rows_upto N) D r = Some (Some v)"
  shows "1 \<le> v \<and> v \<le> N"
proof -
  from assms have r: "r \<in> {1..N}" and v: "v = r - deleted_below {1..N} D r"
    by (auto simp: build_row_mapping_lookup set_rows_upto split: if_splits)
  have "0 \<le> deleted_below {1..N} D r" by (simp add: deleted_below_def)
  with deleted_below_lower [OF r, of D] r v show ?thesis by simp
qed

lemma below_limit: "\<bar>v\<bar> \<le> 10 \<Longrightarrow> \<bar>v::int\<bar> < 10 ^ max_str_digits"
proof -
  assume a: "\<bar>v\<bar> \<le> 10"
  have "(10::int) ^ 2 \<le> 10 ^ max_str_digits"
    by (rule power_increasing) (simp_all add: max_str_digits_def)
  with a show ?thesis by simp
qed

text \<open>
  Claim C7, as amended. A string that does not start with \<open>=\<close> is returned as it is, for
  every mapping. When no reference of the formula has a row of more than 4300 digits and
  no new row number of the mapping has more than 4300 digits, \<open>adjust_formula_references\<close>
  returns a string and raises nothing.
\<close>

theorem adjust_formula_references_returns:
  "(\<not> startswith formula ''='' \<longrightarrow> adjust_formula_references formula row_mapping = Inr formula) \<and>
   (list_all (\<lambda>ref. length (row_digits ref) \<le> max_str_digits) (parse_cell_references formula) \<and>
    (\<forall>r v. row_mapping r = Some (Some v) \<longrightarrow> \<bar>v\<bar> < 10 ^ max_str_digits) \<longrightarrow>
    (\<exists>new_formula. adjust_formula_references formula row_mapping = Inr new_formula))"
proof (intro conjI impI)
  assume "\<not> startswith formula ''=''"
  then show "adjust_formula_references formula row_mapping = Inr formula"
    by (simp add: adjust_formula_references_def)
next
  assume a: "list_all (\<lambda>ref. length (row_digits ref) \<le> max_str_digits)
               (parse_cell_references formula) \<and>
             (\<forall>r v. row_mapping r = Some (Some v) \<longrightarrow> \<bar>v\<bar> < 10 ^ max_str_digits)"
  have "\<exists>x. adjust_loop row_mapping (sort_by_length_desc (parse_cell_references formula)) s =
            Inr x" for s
  proof (rule adjust_loop_returns)
    fix r v assume "row_mapping r = Some (Some v)"
    with a show "\<bar>v\<bar> < 10 ^ max_str_digits" by blast
  next
    fix ref assume "ref \<in> set (sort_by_length_desc (parse_cell_references formula))"
    from extracted_references [OF this] a
    show "length (row_digits ref) \<le> max_str_digits \<and>
          (\<exists>d1 l d2 n. ref = d1 @ l @ d2 @ n \<and> reference_shape d1 l d2 n)"
      by (auto simp: list_all_iff)
  qed
  then show "\<exists>new_formula. adjust_formula_references formula row_mapping = Inr new_formula"
    by (simp add: adjust_formula_references_def)
qed

theorem adjust_formula_references_returns_witness:
  "adjust_formula_references ''A10+1'' (build_row_mapping_after_deletion (rows_upto 10) {2}) =
     Inr ''A10+1'' \<and>
   (\<exists>new_formula.
      adjust_formula_references ''=A10+$B$3'' (build_row_mapping_after_deletion (rows_upto 10) {2}) =
        Inr new_formula)"
proof -
  let ?m = "build_row_mapping_after_deletion (rows_upto 10) {2}"
  have st: "\<not> startswith ''A10+1'' ''=''" by (simp add: startswith_def)
  have refs: "list_all (\<lambda>ref. length (row_digits ref) \<le> max_str_digits)
                (parse_cell_references ''=A10+$B$3'')"
    by code_simp
  have vals: "\<forall>r v. ?m r = Some (Some v) \<longrightarrow> \<bar>v\<bar> < 10 ^ max_str_digits"
  proof (intro allI impI)
    fix r v assume "?m r = Some (Some v)"
    from small_row_numbers [OF this] have "\<bar>v\<bar> \<le> 10" by simp
    then show "\<bar>v\<bar> < 10 ^ max_str_digits" by (rule below_limit)
  qed
  from adjust_formula_references_returns [of "''A10+1''" ?m] st
    adjust_formula_references_returns [of "''=A10+$B$3''" ?m] refs vals
  show ?thesis by blast
qed

text \<open>
  Claim C7 as stated fails on a reference whose row has 4301 digits: \<open>int\<close> raises
  \<open>ValueError\<close>, which nothing in the function catches.
\<close>

theorem adjust_formula_references_raises:
  "adjust_formula_references (''=A'' @ replicate 4301 (CHR ''1''))
     (build_row_mapping_after_deletion (rows_upto 10) {}) = Inl ValueError"
  by (rule long_row_raises) (simp_all add: list_all_iff is_digit_def max_str_digits_def)

subsection \<open>Rewriting when no row is deleted\<close>

lemma adjust_reference_identity:
  assumes shape: "reference_shape d1 l d2 n"
    and canon: "\<not> has_leading_zero (d1 @ l @ d2 @ n)"
    and len: "length (row_digits (d1 @ l @ d2 @ n)) \<le> max_str_digits"
    and ident: "\<And>r. row_mapping r = None \<or> row_mapping r = Some (Some r)"
  shows "adjust_reference row_mapping (d1 @ l @ d2 @ n) s = Inr s"
proof -
  let ?ref = "d1 @ l @ d2 @ n"
  from shape have l: "l \<noteq> []" and n: "n \<noteq> []" "list_all is_digit n"
    by (simp_all add: reference_shape_def)
  have short: "length n \<le> max_str_digits"
    using len unfolding row_digits_shape [OF shape] .
  from canon have "length n = 1 \<or> hd n \<noteq> CHR ''0''"
    using n(1) unfolding has_leading_zero_def row_digits_shape [OF shape]
    by (cases n) auto
  then have str: "py_str (digits_value n) = Inr n"
    using py_str_digits_value [OF n(2) n(1) _ short] by simp
  have "?ref \<noteq> []" using l by simp
  then have same: "str_replace s ?ref ?ref = s" by (rule str_replace_same)
  from ident [of "digits_value n"] show ?thesis
  proof
    assume "row_mapping (digits_value n) = None"
    then show ?thesis unfolding adjust_reference_shape [OF shape] using short by simp
  next
    assume "row_mapping (digits_value n) = Some (Some (digits_value n))"
    then show ?thesis unfolding adjust_reference_shape [OF shape] using short str same by simp
  qed
qed

lemma adjust_loop_identity:
  assumes "\<And>r. row_mapping r = None \<or> row_mapping r = Some (Some r)"
    and "\<And>ref. ref \<in> set cell_refs \<Longrightarrow>
           \<not> has_leading_zero ref \<and> length (row_digits ref) \<le> max_str_digits \<and>
           (\<exists>d1 l d2 n. ref = d1 @ l @ d2 @ n \<and> reference_shape d1 l d2 n)"
  shows "adjust_loop row_mapping cell_refs s = Inr s"
  using assms(2)
proof (induction cell_refs)
  case Nil
  then show ?case by simp
next
  case (Cons ref cell_refs)
  from Cons.prems [of ref] obtain d1 l d2 n where
    canon: "\<not> has_leading_zero ref" and len: "length (row_digits ref) \<le> max_str_digits"
    and ref: "ref = d1 @ l @ d2 @ n" and shape: "reference_shape d1 l d2 n" by auto
  have "adjust_reference row_mapping ref s = Inr s"
    using adjust_reference_identity [OF shape canon [unfolded ref] len [unfolded ref] assms(1)]
      ref by simp
  moreover have "adjust_loop row_mapping cell_refs s = Inr s"
    using Cons.IH Cons.prems by simp
  ultimately show ?case by simp
qed

lemma build_without_deletions:
  "build_row_mapping_after_deletion original_map {} r = None \<or>
   build_row_mapping_after_deletion original_map {} r = Some (Some r)"
  by (simp add: build_row_mapping_lookup deleted_below_def)

text \<open>
  Claim C6, as amended. When no reference of the formula has a row written with a leading
  zero or with more than 4300 digits, the formula is returned unchanged under the mapping
  built from an empty set of deleted rows.
\<close>

theorem adjust_without_deletions:
  assumes "list_all (\<lambda>ref. \<not> has_leading_zero ref \<and> length (row_digits ref) \<le> max_str_digits)
             (parse_cell_references formula)"
  shows "adjust_formula_references formula (build_row_mapping_after_deletion original_map {}) =
         Inr formula"
proof (cases "formula \<noteq> [] \<and> startswith formula ''=''")
  case False
  then show ?thesis by (auto simp: adjust_formula_references_def)
next
  case True
  have refs: "\<not> has_leading_zero ref \<and> length (row_digits ref) \<le> max_str_digits \<and>
              (\<exists>d1 l d2 n. ref = d1 @ l @ d2 @ n \<and> reference_shape d1 l d2 n)"
    if "ref \<in> set (sort_by_length_desc (parse_cell_references formula))" for ref
    using extracted_references [OF that] assms by (auto simp: list_all_iff)
  have "adjust_loop (build_row_mapping_after_deletion original_map {})
          (sort_by_length_desc (parse_cell_references formula)) formula = Inr formula"
    by (rule adjust_loop_identity [OF build_without_deletions refs])
  then show ?thesis using True by (simp add: adjust_formula_references_def)
qed

theorem adjust_without_deletions_witness:
  "list_all (\<lambda>ref. \<not> has_leading_zero ref \<and> length (row_digits ref) \<le> max_str_digits)
     (parse_cell_references ''=A1+$B$10*Data!C7'') \<and>
   adjust_formula_references ''=A1+$B$10*Data!C7''
     (build_row_mapping_after_deletion (rows_upto 20) {}) = Inr ''=A1+$B$10*Data!C7''"
proof -
  have h: "list_all (\<lambda>ref. \<not> has_leading_zero ref \<and> length (row_digits ref) \<le> max_str_digits)
             (parse_cell_references ''=A1+$B$10*Data!C7'')"
    by code_simp
  from adjust_without_deletions [OF h, of "rows_upto 20"] h show ?thesis by simp
qed

text \<open>
  Claim C6 as stated fails on a row written with a leading zero, in a reference or in a
  text constant of the formula: the row is parsed to a number and written back without
  the zero, although no row is deleted.
\<close>

theorem adjust_without_deletions_counterexample:
  "adjust_formula_references ''=A01'' (build_row_mapping_after_deletion (rows_upto 10) {}) =
     Inr ''=A1'' \<and>
   adjust_formula_references (''=A2&'' @ [CHR 0x22] @ ''X01'' @ [CHR 0x22])
     (build_row_mapping_after_deletion (rows_upto 10) {}) =
     Inr (''=A2&'' @ [CHR 0x22] @ ''X1'' @ [CHR 0x22])"
  by code_simp

subsection \<open>Every occurrence of a reference is replaced\<close>



subsection \<open>The worksheet after the update\<close>

lemma cell_assigned_same: "cell_assigned row_mapping c c"
  by (simp add: cell_assigned_def)

lemma adjust_empty: "adjust_formula_references [] row_mapping = Inr []"
  by (simp add: adjust_formula_references_def)

lemma update_cell_frame:
  "case update_cell row_mapping c k of (c', result) \<Rightarrow>
     cell_assigned row_mapping c c' \<and>
     (case result of
        Inl e \<Rightarrow> cell_raises row_mapping c \<and> c' = c
      | Inr n \<Rightarrow> c' = cell_after row_mapping c \<and>
                 n = k + (if cell_value c' \<noteq> cell_value c then 1 else 0))"
proof (cases "data_type c = ''f''")
  case False
  then show ?thesis
    by (simp add: update_cell_def cell_after_def formula_differs_def cell_assigned_same)
next
  case True
  show ?thesis
  proof (cases "cell_value c")
    case (NonStr v)
    then show ?thesis using True
      by (simp add: update_cell_def cell_after_def formula_differs_def cell_assigned_same)
  next
    case (StrValue f)
    show ?thesis
    proof (cases "adjust_formula_references f row_mapping")
      case (Inl e)
      then have raises: "adjust_formula_references f row_mapping = Inl ValueError"
        by (cases e) simp
      then have "f \<noteq> []" using adjust_empty [of row_mapping] by auto
      then show ?thesis using True StrValue raises
        by (simp add: update_cell_def cell_raises_def cell_assigned_same)
    next
      case (Inr f')
      show ?thesis
      proof (cases "f' = f")
        case same: True
        then show ?thesis using \<open>data_type c = ''f''\<close> StrValue Inr
          by (simp add: update_cell_def cell_after_def formula_differs_def cell_assigned_same
              adjust_empty)
      next
        case False
        then have "f \<noteq> []" using Inr adjust_empty [of row_mapping] by auto
        moreover have "cell_assigned row_mapping c (c\<lparr>cell_value := StrValue f'\<rparr>)"
          using \<open>data_type c = ''f''\<close> StrValue Inr False by (auto simp: cell_assigned_def)
        ultimately show ?thesis using \<open>data_type c = ''f''\<close> StrValue Inr False
          by (simp add: update_cell_def cell_after_def formula_differs_def
              with_adjusted_formula_def)
      qed
    qed
  qed
qed

lemma update_row_frame:
  "case update_row row_mapping cs k of (cs', result) \<Rightarrow>
     list_all2 (cell_assigned row_mapping) cs cs' \<and>
     (case result of
        Inl e \<Rightarrow> list_ex (cell_raises row_mapping) cs
      | Inr n \<Rightarrow> cs' = map (cell_after row_mapping) cs \<and> n = k + changed_cells cs cs')"
proof (induction cs arbitrary: k)
  case Nil
  then show ?case by (simp add: changed_cells_def)
next
  case (Cons c cs)
  obtain c' r where cell: "update_cell row_mapping c k = (c', r)"
    by (cases "update_cell row_mapping c k")
  note cf = update_cell_frame [of row_mapping c k, unfolded cell prod.case]
  show ?case
  proof (cases r)
    case (Inl e)
    have "list_all2 (cell_assigned row_mapping) cs cs"
      by (simp add: list_all2_refl cell_assigned_same)
    then show ?thesis using cf Inl cell by auto
  next
    case (Inr n)
    obtain cs' r' where row: "update_row row_mapping cs n = (cs', r')"
      by (cases "update_row row_mapping cs n")
    note rf = Cons.IH [of n, unfolded row prod.case]
    show ?thesis
    proof (cases r')
      case (Inl e)
      then show ?thesis using cf rf Inr cell row by auto
    next
      case inr: (Inr n')
      then show ?thesis using cf rf Inr cell row by (auto simp: changed_cells_def)
    qed
  qed
qed

lemma changed_cells_append:
  "length r = length r' \<Longrightarrow>
   changed_cells (r @ rest) (r' @ rest') = changed_cells r r' + changed_cells rest rest'"
  by (simp add: changed_cells_def)

lemma update_rows_frame:
  "case update_rows row_mapping ws k of (ws', result) \<Rightarrow>
     list_all2 (list_all2 (cell_assigned row_mapping)) ws ws' \<and>
     (case result of
        Inl e \<Rightarrow> list_ex (cell_raises row_mapping) (concat ws)
      | Inr n \<Rightarrow> ws' = map (map (cell_after row_mapping)) ws \<and>
                 n = k + changed_cells (concat ws) (concat ws'))"
proof (induction ws arbitrary: k)
  case Nil
  then show ?case by (simp add: changed_cells_def)
next
  case (Cons row rows)
  obtain row' r where first: "update_row row_mapping row k = (row', r)"
    by (cases "update_row row_mapping row k")
  note rf = update_row_frame [of row_mapping row k, unfolded first prod.case]
  show ?case
  proof (cases r)
    case (Inl e)
    have "list_all2 (list_all2 (cell_assigned row_mapping)) rows rows"
      by (simp add: list_all2_refl cell_assigned_same)
    then show ?thesis using rf Inl first by auto
  next
    case (Inr n)
    obtain rows' r' where rest: "update_rows row_mapping rows n = (rows', r')"
      by (cases "update_rows row_mapping rows n")
    note wf = Cons.IH [of n, unfolded rest prod.case]
    show ?thesis
    proof (cases r')
      case (Inl e)
      then show ?thesis using rf wf Inr first rest by auto
    next
      case inr: (Inr n')
      have "length row = length row'" using rf Inr by auto
      from changed_cells_append [OF this]
      show ?thesis using rf wf Inr inr first rest by auto
    qed
  qed
qed

text \<open>
  Claim C10. After \<open>update_formulas_in_sheet\<close>, with or without an exception, every cell is
  as before or is a cell of data type \<open>f\<close> that was assigned its adjusted formula, another
  string than its value. When the call returns, it has assigned the adjusted formula to
  every such cell, and the returned count is the number of cells whose value changed. The
  call returns unless adjusting the formula of a cell raises.
\<close>

theorem update_formulas_in_sheet_frame:
  "case update_formulas_in_sheet worksheet row_mapping of (worksheet', result) \<Rightarrow>
     list_all2 (list_all2 (cell_assigned row_mapping)) worksheet worksheet' \<and>
     (case result of
        Inl e \<Rightarrow> list_ex (cell_raises row_mapping) (concat worksheet)
      | Inr updated_count \<Rightarrow>
          worksheet' = map (map (cell_after row_mapping)) worksheet \<and>
          updated_count = changed_cells (concat worksheet) (concat worksheet'))"
proof -
  obtain ws' r where u: "update_rows row_mapping worksheet 0 = (ws', r)"
    by (cases "update_rows row_mapping worksheet 0")
  from update_rows_frame [of row_mapping worksheet 0, unfolded u prod.case]
  show ?thesis unfolding update_formulas_in_sheet_def u prod.case
    by (cases r) auto
qed

theorem update_formulas_in_sheet_frame_witness:
  "update_formulas_in_sheet
     [[\<lparr>data_type = ''f'', cell_value = StrValue ''=A3''\<rparr>,
       \<lparr>data_type = ''s'', cell_value = StrValue ''=A3''\<rparr>],
      [\<lparr>data_type = ''f'', cell_value = NonStr 3\<rparr>,
       \<lparr>data_type = ''f'', cell_value = StrValue ''=A1''\<rparr>]]
     (build_row_mapping_after_deletion (rows_upto 10) {2}) =
   ([[\<lparr>data_type = ''f'', cell_value = StrValue ''=A2''\<rparr>,
      \<lparr>data_type = ''s'', cell_value = StrValue ''=A3''\<rparr>],
     [\<lparr>data_type = ''f'', cell_value = NonStr 3\<rparr>,
      \<lparr>data_type = ''f'', cell_value = StrValue ''=A1''\<rparr>]], Inr 1)"
proof -
  let ?ws = "[[\<lparr>data_type = ''f'', cell_value = StrValue ''=A3''\<rparr>,
       \<lparr>data_type = ''s'', cell_value = StrValue ''=A3''\<rparr>],
      [\<lparr>data_type = ''f'', cell_value = NonStr 3\<rparr>,
       \<lparr>data_type = ''f'', cell_value = StrValue ''=A1''\<rparr>]]"
  let ?ws' = "[[\<lparr>data_type = ''f'', cell_value = StrValue ''=A2''\<rparr>,
        \<lparr>data_type = ''s'', cell_value = StrValue ''=A3''\<rparr>],
       [\<lparr>data_type = ''f'', cell_value = NonStr 3\<rparr>,
        \<lparr>data_type = ''f'', cell_value = StrValue ''=A1''\<rparr>]]"
  let ?m = "build_row_mapping_after_deletion (rows_upto 10) {2}"
  obtain ws' r where u: "update_formulas_in_sheet ?ws ?m = (ws', r)"
    by (cases "update_formulas_in_sheet ?ws ?m")
  note frame = update_formulas_in_sheet_frame [where worksheet = ?ws and row_mapping = ?m,
      unfolded u prod.case]
  have no_raise: "\<not> list_ex (cell_raises ?m) (concat ?ws)" by code_simp
  have after: "map (map (cell_after ?m)) ?ws = ?ws'" by code_simp
  have count: "changed_cells (concat ?ws) (concat ?ws') = 1" by code_simp
  from frame no_raise obtain n where r: "r = Inr n" by (cases r) auto
  from frame have "ws' = ?ws'" and "n = 1" unfolding r sum.case after using count by simp_all
  with u r show ?thesis by simp
qed

lemma update_formulas_in_sheet_exception:
  "update_formulas_in_sheet
     [[\<lparr>data_type = ''f'', cell_value = StrValue ''=A3''\<rparr>,
       \<lparr>data_type = ''f'', cell_value = StrValue (''=A'' @ replicate 4301 (CHR ''1''))\<rparr>,
       \<lparr>data_type = ''f'', cell_value = StrValue ''=A4''\<rparr>]]
     (build_row_mapping_after_deletion (rows_upto 10) {2}) =
   ([[\<lparr>data_type = ''f'', cell_value = StrValue ''=A2''\<rparr>,
      \<lparr>data_type = ''f'', cell_value = StrValue (''=A'' @ replicate 4301 (CHR ''1''))\<rparr>,
      \<lparr>data_type = ''f'', cell_value = StrValue ''=A4''\<rparr>]], Inl ValueError)"
proof -
  let ?m = "build_row_mapping_after_deletion (rows_upto 10) {2}"
  define long where "long = ''=A'' @ replicate 4301 (CHR ''1'')"
  have raises: "adjust_formula_references long ?m = Inl ValueError"
    unfolding long_def
    by (rule long_row_raises) (simp_all add: list_all_iff is_digit_def max_str_digits_def)
  have ne: "long \<noteq> []" by (simp add: long_def)
  have first: "update_cell ?m \<lparr>data_type = ''f'', cell_value = StrValue ''=A3''\<rparr> 0 =
      (\<lparr>data_type = ''f'', cell_value = StrValue ''=A2''\<rparr>, Inr 1)"
    by code_simp
  have second: "update_cell ?m \<lparr>data_type = ''f'', cell_value = StrValue long\<rparr> k =
      (\<lparr>data_type = ''f'', cell_value = StrValue long\<rparr>, Inl ValueError)" for k
    by (simp add: update_cell_def raises ne)
  have "update_formulas_in_sheet
     [[\<lparr>data_type = ''f'', cell_value = StrValue ''=A3''\<rparr>,
       \<lparr>data_type = ''f'', cell_value = StrValue long\<rparr>,
       \<lparr>data_type = ''f'', cell_value = StrValue ''=A4''\<rparr>]] ?m =
   ([[\<lparr>data_type = ''f'', cell_value = StrValue ''=A2''\<rparr>,
      \<lparr>data_type = ''f'', cell_value = StrValue long\<rparr>,
      \<lparr>data_type = ''f'', cell_value = StrValue ''=A4''\<rparr>]], Inl ValueError)"
    by (simp add: update_formulas_in_sheet_def first second)
  then show ?thesis by (simp only: long_def)
qed

end
